theory Spec2Isabelle
  imports Complex_Main "HOL-Library.Multiset" "HOL-Library.Product_Lexorder" "HOL-Library.Word"
begin

section \<open>The knapsack repair operator\<close>

text \<open>
  The notebook on the repair operator defines \<^verbatim>\<open>ConsiderMaximumWeightRepair._do\<close>:
  \<^verbatim>\<open>
    Q = problem.C
    Z = pop.get("X")
    weights = (Z * problem.W).sum(axis=1)
    for i in range(len(Z)):
        z = Z[i]
        while weights[i] > Q:
            item_to_remove = np.random.choice(np.where(z)[0])
            z[item_to_remove] = False
            weights[i] -= problem.W[item_to_remove]
    pop.set("X", Z)
    return pop
  \<close>
  The model below follows it line by line. A packing plan is a list of booleans. Item
  weights and the capacity are numpy's 64-bit integers, as \<^verbatim>\<open>np.random.randint\<close> draws
  them for the random knapsack problem: the product with the booleans, the sum over a row
  and the subtraction in place are computed in 64 bits and wrap around, and the comparison
  with the capacity is signed (a capacity held as a Python integer within the 64-bit range
  compares the same way). Weights held as floating-point numbers are not modelled.
  The model is the code on the populations of the problem, whose decision vectors have one
  entry for each item: \<open>length (X ind) = length (W problem)\<close>. On other shapes numpy
  broadcasts or raises; the statements below are about the problem's shape only.
  Exceptions are values of the type \<open>error\<close>. The constructor \<open>RepairNonTermination\<close>
  is the name the specification gives to a failure of the repair to converge; no line of
  the source raises it.
\<close>

datatype error = ValueError | IndexError | TypeError | RepairNonTermination

type_synonym int64 = "64 word"

text \<open>The fields of the problem that the repair reads: \<^verbatim>\<open>problem.C\<close> and \<^verbatim>\<open>problem.W\<close>.\<close>

record knapsack =
  C :: int64
  W :: "int64 list"

text \<open>
  An individual of the population: the decision vector \<^verbatim>\<open>X\<close> (a list of booleans for
  the knapsack problem, a list of keys for the permutation problem), and everything else
  that is attached to it (objective, constraint violation, auxiliary attributes) as
  \<open>attrs\<close>.
\<close>

record ('x, 'a) individual =
  X :: 'x
  attrs :: 'a

text \<open>
  The state of numpy's module-level random generator, which \<^verbatim>\<open>np.random.choice\<close> reads and
  advances: the sequence of raw draws that the generator will produce, and the number of
  draws already taken. The state outlives an exception: every function below returns the
  state it leaves behind together with its result or with the exception it raised.
\<close>

record np_random =
  draws :: "nat \<Rightarrow> nat"
  used :: nat

text \<open>\<^verbatim>\<open>np.where(z)[0]\<close>: the indices of the selected items, in increasing order.\<close>

definition np_where :: "bool list \<Rightarrow> nat list" where
  "np_where z = filter (\<lambda>j. z ! j) [0..<length z]"

text \<open>
  \<^verbatim>\<open>np.random.choice(a)\<close>: one element of \<open>a\<close>, at the position given by the next draw;
  on an empty array numpy raises \<^verbatim>\<open>ValueError\<close> before it draws.
\<close>

definition choice :: "nat list \<Rightarrow> np_random \<Rightarrow> (error + nat) \<times> np_random" where
  "choice a g =
     (if a = [] then (Inl ValueError, g)
      else (Inr (a ! (draws g (used g) mod length a)), g\<lparr>used := Suc (used g)\<rparr>))"

text \<open>\<^verbatim>\<open>(z * problem.W).sum()\<close> for one row \<open>z\<close> of \<open>Z\<close>, in 64 bits.\<close>

definition row_weight :: "int64 list \<Rightarrow> bool list \<Rightarrow> int64" where
  "row_weight w z = sum_list (map2 (\<lambda>b x. (if b then 1 else 0) * x) z w)"

text \<open>
  The \<^verbatim>\<open>while\<close> loop for one individual: \<open>z\<close> is the row \<^verbatim>\<open>Z[i]\<close>, \<open>wt\<close> the tracked
  weight \<^verbatim>\<open>weights[i]\<close>. Every iteration unselects one selected item, so the number of
  selected items is a termination measure.
\<close>

function repair_while ::
  "int64 \<Rightarrow> int64 list \<Rightarrow> bool list \<Rightarrow> int64 \<Rightarrow> np_random
     \<Rightarrow> (error + (bool list \<times> int64)) \<times> np_random"
where
  "repair_while Q w z wt g =
     (if sint wt > sint Q then
        (case choice (np_where z) g of
           (Inl e, g') \<Rightarrow> (Inl e, g')
         | (Inr item_to_remove, g') \<Rightarrow>
             repair_while Q w (z[item_to_remove := False]) (wt - w ! item_to_remove) g')
      else (Inr (z, wt), g))"
  by pat_completeness auto

termination
proof (relation "measure (\<lambda>(Q, w, z, wt, g). length (np_where z))", goal_cases)
  case 1
  show ?case by simp
next
  case (2 Q w z wt g x1 g' item)
  let ?S = "{j. j < length z \<and> z ! j}"
  have count: "length (np_where y) = card {j. j < length y \<and> y ! j}" for y
    using distinct_card [of "np_where y"]
    by (auto simp: np_where_def intro: arg_cong [where f = card])
  from 2 have "item \<in> set (np_where z)"
    by (auto simp: choice_def split: if_splits)
  then have mem: "item \<in> ?S" by (auto simp: np_where_def)
  then have "{j. j < length (z[item := False]) \<and> (z[item := False]) ! j} = ?S - {item}"
    by (auto simp: nth_list_update split: if_splits)
  then have "length (np_where (z[item := False])) = card (?S - {item})"
    by (simp add: count)
  also have "\<dots> < card ?S"
    using mem by (intro card_Diff1_less) simp_all
  finally show ?case by (simp add: count)
qed

declare repair_while.simps [simp del]

text \<open>
  The \<^verbatim>\<open>for\<close> loop over the rows. The source updates the row \<^verbatim>\<open>Z[i]\<close> (through the
  view \<^verbatim>\<open>z\<close>) and the entry \<^verbatim>\<open>weights[i]\<close> in place; the model writes both back at
  index \<open>i\<close>. An exception raised for one row ends the whole loop.
\<close>

fun repair_for ::
  "int64 \<Rightarrow> int64 list \<Rightarrow> nat list \<Rightarrow> bool list list \<Rightarrow> int64 list \<Rightarrow> np_random
     \<Rightarrow> (error + (bool list list \<times> int64 list)) \<times> np_random"
where
  "repair_for Q w [] Z weights g = (Inr (Z, weights), g)"
| "repair_for Q w (i # is) Z weights g =
     (case repair_while Q w (Z ! i) (weights ! i) g of
        (Inl e, g') \<Rightarrow> (Inl e, g')
      | (Inr (z, wt), g') \<Rightarrow> repair_for Q w is (Z[i := z]) (weights[i := wt]) g')"

text \<open>
  Modelled from the spec: the class of the population is not among the source files. It
  is "an ordered sequence of Individuals, exposing bulk get/set over a named attribute
  across all members (e.g., retrieve all X as a matrix)". \<^verbatim>\<open>pop.get("X")\<close> is the
  matrix of the decision vectors, a fresh array, one row for each individual.
\<close>

definition pop_get_X :: "('x, 'a) individual list \<Rightarrow> 'x list" where
  "pop_get_X pop = map X pop"

text \<open>
  Modelled from the spec: \<^verbatim>\<open>pop.set("X", Z)\<close>, the bulk set, gives row \<open>i\<close> of \<open>Z\<close> to
  individual \<open>i\<close> and leaves its other attributes alone.
\<close>

definition pop_set_X :: "('x, 'a) individual list \<Rightarrow> 'x list \<Rightarrow> ('x, 'a) individual list" where
  "pop_set_X pop Z = map2 (\<lambda>ind z. ind\<lparr>X := z\<rparr>) pop Z"

text \<open>
  The method \<^verbatim>\<open>_do\<close>. It takes the problem and the population and, through
  \<^verbatim>\<open>np.random\<close>, the generator state; it returns the population, or the exception that
  ended it, and the generator state it leaves behind.
\<close>

definition ConsiderMaximumWeightRepair_do ::
  "knapsack \<Rightarrow> (bool list, 'a) individual list \<Rightarrow> np_random
     \<Rightarrow> (error + (bool list, 'a) individual list) \<times> np_random"
where
  "ConsiderMaximumWeightRepair_do problem pop g =
     (let Q = C problem;
          Z = pop_get_X pop;
          weights = map (row_weight (W problem)) Z
      in case repair_for Q (W problem) [0..<length Z] Z weights g of
           (Inl e, g') \<Rightarrow> (Inl e, g')
         | (Inr (Z', weights'), g') \<Rightarrow> (Inr (pop_set_X pop Z'), g'))"

text \<open>
  The weighted sum that the claims speak of, the sum of \<open>W[j]\<close> over the selected items
  \<open>j\<close>, as an integer that does not wrap. It is not computed by the code; it is what the
  64-bit \<open>row_weight\<close> is compared with.
\<close>

definition weighted_sum :: "int64 list \<Rightarrow> bool list \<Rightarrow> int" where
  "weighted_sum w z = sum_list (map2 (\<lambda>b x. if b then sint x else 0) z w)"

section \<open>The random-key permutation problem\<close>

text \<open>
  The notebook on the biased random key genetic algorithm defines the problem, whose
  decision vector is a list of real-valued keys and whose phenotype is their sort order:
  \<^verbatim>\<open>
    class MyProblem(Problem):
        def __init__(self, my_list):
            self.correct = np.argsort(my_list)
            super().__init__(n_var=len(my_list), n_obj=1, n_constr=0, xl=0, xu=1,
                             elementwise_evaluation=True)
        def _evaluate(self, x, out, *args, **kwargs):
            pheno = np.argsort(x)
            out["F"] = - float((self.correct == pheno).sum())
            out["pheno"] = pheno
            out["hash"] = hash(str(pheno))
  \<close>
  and the duplicate elimination on the phenotype:
  \<^verbatim>\<open>
    def is_equal(self, a, b):
        return a.get("hash")[0] == b.get("hash")[0]
  \<close>
  Keys are of any linearly ordered type (floats that are numbers are one). \<^verbatim>\<open>np.argsort\<close>
  is the list of indices in the order of their keys. For pairwise distinct keys there is
  one such list. Where keys are equal, numpy's default sort is not stable and may order
  their indices either way; the model takes the stable order, and nothing that is proved
  below uses the order among equal keys (only the length of the result is used).
\<close>

definition argsort :: "'k::linorder list \<Rightarrow> nat list" where
  "argsort x = map snd (sort_key fst (zip x [0..<length x]))"

text \<open>The fields that \<^verbatim>\<open>__init__\<close> sets and \<^verbatim>\<open>_evaluate\<close> reads.\<close>

record MyProblem =
  correct :: "nat list"
  n_var :: nat

definition MyProblem_init :: "'k::linorder list \<Rightarrow> MyProblem" where
  "MyProblem_init my_list = \<lparr>correct = argsort my_list, n_var = length my_list\<rparr>"

text \<open>
  The dictionary \<^verbatim>\<open>out\<close> after \<^verbatim>\<open>_evaluate\<close>. The objective is a float with an integer
  value (a negated count), modelled as an integer.
\<close>

record out =
  F :: int
  pheno :: "nat list"
  hash :: int

text \<open>\<^verbatim>\<open>(self.correct == pheno).sum()\<close> for two arrays of the same length.\<close>

definition eq_sum :: "nat list \<Rightarrow> nat list \<Rightarrow> int" where
  "eq_sum a b = sum_list (map2 (\<lambda>c p. if c = p then 1 else 0) a b)"

text \<open>
  \<^verbatim>\<open>_evaluate\<close>. Python's \<^verbatim>\<open>hash\<close> on strings and numpy's \<^verbatim>\<open>str\<close> on arrays are
  library functions; they are parameters of the model, so every statement below holds for
  whatever they compute.
\<close>

definition MyProblem_evaluate ::
  "(string \<Rightarrow> int) \<Rightarrow> (nat list \<Rightarrow> string) \<Rightarrow> MyProblem \<Rightarrow> 'k::linorder list \<Rightarrow> out"
where
  "MyProblem_evaluate py_hash np_str self x =
     (let pheno = argsort x
      in \<lparr>F = - eq_sum (correct self) pheno, pheno = pheno, hash = py_hash (np_str pheno)\<rparr>)"

text \<open>
  An individual of this problem carries its attributes by name, each an array of numbers.
  \<^verbatim>\<open>a.get(name)[0]\<close> is element 0 of the attribute: indexing an absent attribute
  (\<^verbatim>\<open>None\<close>) raises \<^verbatim>\<open>TypeError\<close>, indexing an empty array raises \<^verbatim>\<open>IndexError\<close>.
\<close>

definition get_first :: "('x, string \<rightharpoonup> int list) individual \<Rightarrow> string \<Rightarrow> error + int" where
  "get_first a name =
     (case attrs a name of
        None \<Rightarrow> Inl TypeError
      | Some [] \<Rightarrow> Inl IndexError
      | Some (v # _) \<Rightarrow> Inr v)"

text \<open>\<^verbatim>\<open>MyElementwiseDuplicateElimination.is_equal\<close>; the left operand is evaluated first.\<close>

definition is_equal ::
  "('x, string \<rightharpoonup> int list) individual \<Rightarrow> ('x, string \<rightharpoonup> int list) individual \<Rightarrow> error + bool"
where
  "is_equal a b =
     (case get_first a ''hash'' of
        Inl e \<Rightarrow> Inl e
      | Inr ha \<Rightarrow>
          (case get_first b ''hash'' of
             Inl e \<Rightarrow> Inl e
           | Inr hb \<Rightarrow> Inr (ha = hb)))"

text \<open>
  Modelled from the spec: the evaluation step of the engine, which is not among the source
  files, attaches the outputs of \<^verbatim>\<open>_evaluate\<close> to the individual as named attributes
  ("every Individual in the population after the evaluation step has F populated", with
  "an open-ended mapping of auxiliary attributes"). A scalar output is stored as an array
  of one element, as the \<^verbatim>\<open>[0]\<close> in \<^verbatim>\<open>is_equal\<close> and the printed \<^verbatim>\<open>F = [-20.]\<close> show.
  \<open>evaluated_by\<close> says that an individual carries the outputs of \<^verbatim>\<open>_evaluate\<close> on its
  own keys.
\<close>

definition evaluated_by ::
  "(string \<Rightarrow> int) \<Rightarrow> (nat list \<Rightarrow> string) \<Rightarrow> MyProblem
     \<Rightarrow> ('k::linorder list, string \<rightharpoonup> int list) individual \<Rightarrow> bool"
where
  "evaluated_by py_hash np_str problem a =
     (let out = MyProblem_evaluate py_hash np_str problem (X a)
      in attrs a ''F'' = Some [F out]
         \<and> attrs a ''pheno'' = Some (map int (pheno out))
         \<and> attrs a ''hash'' = Some [hash out])"

section \<open>The per-generation report\<close>

text \<open>
  The notebook on the repair operator shows two runs of \<^verbatim>\<open>minimize\<close> with
  \<^verbatim>\<open>verbose=True\<close> and the table that each run prints, one row for each generation
  with the columns \<^verbatim>\<open>n_gen\<close>, \<^verbatim>\<open>n_eval\<close>, \<^verbatim>\<open>cv (min)\<close>, \<^verbatim>\<open>cv (avg)\<close>, \<^verbatim>\<open>fopt\<close>
  and \<^verbatim>\<open>favg\<close>. The code that prints the table, and the generational loop under it, are
  not among the source files; they are modelled from the specification.
\<close>

text \<open>
  Modelled from the spec: what the reporter reads of an evaluated individual, its
  objective \<open>F\<close> (one objective) and its scalar constraint violation \<open>CV\<close> ("CV is always
  non-negative and zero exactly for feasible individuals").
\<close>

record fitness =
  obj_F :: rat
  CV :: rat

text \<open>Modelled from the spec: "CV == 0 iff feasible".\<close>

definition feasible :: "('x, fitness) individual \<Rightarrow> bool" where
  "feasible ind \<longleftrightarrow> CV (attrs ind) = 0"

text \<open>
  One row of the table: generation index, cumulative evaluation count, minimum and
  average constraint violation, best and average feasible objective. \<open>None\<close> is the
  placeholder \<^verbatim>\<open>-\<close>.
\<close>

record display_row =
  n_gen :: nat
  n_eval :: nat
  cv_min :: rat
  cv_avg :: rat
  fopt :: "rat option"
  favg :: "rat option"

text \<open>
  Modelled from the spec: the reporter "computes and records: evaluation count so far,
  minimum and average constraint violation across the population, and, only once at least
  one feasible individual exists, the best-found and average objective among feasible
  individuals (reported as absent/placeholder beforehand)".
\<close>

definition report :: "nat \<Rightarrow> nat \<Rightarrow> ('x, fitness) individual list \<Rightarrow> display_row" where
  "report gen evals pop =
     (let cvs = map (\<lambda>ind. CV (attrs ind)) pop;
          fs = map (\<lambda>ind. obj_F (attrs ind)) (filter feasible pop)
      in \<lparr>n_gen = gen, n_eval = evals,
          cv_min = min_list cvs,
          cv_avg = sum_list cvs / of_nat (length cvs),
          fopt = (if fs = [] then None else Some (min_list fs)),
          favg = (if fs = [] then None else Some (sum_list fs / of_nat (length fs)))\<rparr>)"

text \<open>
  Modelled from the spec: the rank of Survival, "any feasible individual outranks any
  infeasible one; among individuals with equal feasibility status, rank by objective".
\<close>

definition rank_key :: "('x, fitness) individual \<Rightarrow> nat \<times> rat" where
  "rank_key ind = (if feasible ind then 0 else 1, obj_F (attrs ind))"

text \<open>
  Modelled from the spec: Survival "reduces a (possibly oversized, post-variation)
  Population back to the configured target size", by rank, as "a total order
  (deterministic tie-break, e.g., stable by insertion order)".
\<close>

definition survival :: "nat \<Rightarrow> ('x, fitness) individual list \<Rightarrow> ('x, fitness) individual list" where
  "survival n pop = take n (sort_key rank_key pop)"

text \<open>
  Modelled from the spec: the generational loop. Its state is the generation counter, the
  evaluation counter and the population. The offspring of each generation, after
  selection, variation, repair, evaluation and duplicate elimination, are whatever they
  are: the run is given by the list \<open>offs\<close> of the offspring of its generations.
  "Survival merges survivors with new offspring down to target size". The first row of a
  printed table has the generation index 1, and so has the first state of a run.
\<close>

fun driver ::
  "nat \<Rightarrow> nat \<times> nat \<times> ('x, fitness) individual list \<Rightarrow> ('x, fitness) individual list list
     \<Rightarrow> (nat \<times> nat \<times> ('x, fitness) individual list) list"
where
  "driver n s [] = [s]"
| "driver n (gen, evals, pop) (off # offs) =
     (gen, evals, pop) # driver n (Suc gen, evals + length off, survival n (pop @ off)) offs"

text \<open>Modelled from the spec: the populations of a run, one for each generation.\<close>

definition populations ::
  "nat \<Rightarrow> ('x, fitness) individual list \<Rightarrow> ('x, fitness) individual list list
     \<Rightarrow> ('x, fitness) individual list list"
where
  "populations n pop0 offs =
     map (\<lambda>(gen, evals, pop). pop) (driver n (1, length pop0, pop0) offs)"

text \<open>Modelled from the spec: the history of a run, one row for each generation.\<close>

definition history ::
  "nat \<Rightarrow> ('x, fitness) individual list \<Rightarrow> ('x, fitness) individual list list \<Rightarrow> display_row list"
where
  "history n pop0 offs =
     map (\<lambda>(gen, evals, pop). report gen evals pop) (driver n (1, length pop0, pop0) offs)"

section \<open>Proofs for the repair operator\<close>

subsection \<open>Selected items\<close>

lemma set_np_where: "set (np_where z) = {j. j < length z \<and> z ! j}"
  by (auto simp: np_where_def)

lemma distinct_np_where: "distinct (np_where z)"
  by (simp add: np_where_def)

lemma length_np_where: "length (np_where z) = card {j. j < length z \<and> z ! j}"
  using distinct_card [OF distinct_np_where, of z] by (simp add: set_np_where)

lemma np_where_unselect_Suc:
  assumes "item \<in> set (np_where z)"
  shows "Suc (length (np_where (z[item := False]))) = length (np_where z)"
proof -
  let ?S = "{j. j < length z \<and> z ! j}"
  have fin: "finite ?S" by simp
  have mem: "item \<in> ?S" using assms by (simp add: set_np_where)
  have "{j. j < length (z[item := False]) \<and> (z[item := False]) ! j} = ?S - {item}"
    using mem by (auto simp: nth_list_update split: if_splits)
  then have "length (np_where (z[item := False])) = card (?S - {item})"
    by (simp add: length_np_where)
  moreover have "card ?S = Suc (card (?S - {item}))"
    using fin mem by (rule card.remove)
  ultimately show ?thesis by (simp add: length_np_where)
qed


lemma np_where_Nil_iff: "np_where z = [] \<longleftrightarrow> (\<forall>b \<in> set z. \<not> b)"
proof -
  have "np_where z = [] \<longleftrightarrow> set (np_where z) = {}" by simp
  also have "\<dots> \<longleftrightarrow> (\<forall>j < length z. \<not> z ! j)" by (auto simp: set_np_where)
  also have "\<dots> \<longleftrightarrow> (\<forall>b \<in> set z. \<not> b)" by (auto simp: in_set_conv_nth)
  finally show ?thesis .
qed

lemma choice_Inr:
  "choice a g = (Inr x, g') \<Longrightarrow> x \<in> set a \<and> used g' = Suc (used g) \<and> draws g' = draws g"
  by (auto simp: choice_def split: if_splits)

lemma choice_Inl: "choice a g = (Inl e, g') \<Longrightarrow> e = ValueError \<and> a = [] \<and> g' = g"
  by (auto simp: choice_def split: if_splits)

subsection \<open>The weight of a row\<close>

lemma row_weight_Nil [simp]: "row_weight w [] = 0"
  by (simp add: row_weight_def)

lemma row_weight_Cons [simp]:
  "row_weight (x # w) (b # z) = (if b then x else 0) + row_weight w z"
  by (simp add: row_weight_def)

lemma row_weight_unselect:
  "item < length z \<Longrightarrow> length z = length w \<Longrightarrow> z ! item
     \<Longrightarrow> row_weight w (z[item := False]) = row_weight w z - w ! item"
proof (induction z arbitrary: w item)
  case Nil
  then show ?case by simp
next
  case (Cons b z)
  then obtain x w' where w: "w = x # w'" by (cases w) auto
  show ?case
  proof (cases item)
    case 0
    with Cons.prems w show ?thesis by simp
  next
    case (Suc k)
    with Cons.prems w Cons.IH [of k w'] show ?thesis by simp
  qed
qed

lemma row_weight_none: "\<forall>b \<in> set z. \<not> b \<Longrightarrow> row_weight w z = 0"
proof (induction z arbitrary: w)
  case Nil
  then show ?case by simp
next
  case (Cons b z)
  show ?case
  proof (cases w)
    case Nil
    then show ?thesis by (simp add: row_weight_def)
  next
    case (Cons x w')
    with Cons.prems Cons.IH [of w'] show ?thesis by auto
  qed
qed

lemma weighted_sum_Nil [simp]: "weighted_sum w [] = 0"
  by (simp add: weighted_sum_def)

lemma weighted_sum_Cons [simp]:
  "weighted_sum (x # w) (b # z) = (if b then sint x else 0) + weighted_sum w z"
  by (simp add: weighted_sum_def)

lemma weighted_sum_nonneg:
  "\<forall>x \<in> set w. 0 \<le> sint x \<Longrightarrow> 0 \<le> weighted_sum w z"
proof (induction z arbitrary: w)
  case Nil
  then show ?case by simp
next
  case (Cons b z)
  show ?case
  proof (cases w)
    case Nil
    then show ?thesis by (simp add: weighted_sum_def)
  next
    case (Cons x w')
    with Cons.prems Cons.IH [of w'] show ?thesis by auto
  qed
qed

text \<open>Without overflow the 64-bit sum is the sum.\<close>

lemma sint_add_in_range:
  fixes a b :: int64
  assumes "0 \<le> sint a" and "0 \<le> sint b" and "sint a + sint b < 2 ^ 63"
  shows "sint (a + b) = sint a + sint b"
proof -
  have "sint (a + b) = signed_take_bit 63 (sint a + sint b)"
    by (simp add: sint_word_add)
  also have "\<dots> = sint a + sint b"
    using assms by (intro signed_take_bit_int_eq_self) simp_all
  finally show ?thesis .
qed

lemma sint_row_weight:
  "\<forall>x \<in> set w. 0 \<le> sint x \<Longrightarrow> weighted_sum w z < 2 ^ 63
     \<Longrightarrow> sint (row_weight w z) = weighted_sum w z"
proof (induction z arbitrary: w)
  case Nil
  then show ?case by simp
next
  case (Cons b z)
  show ?case
  proof (cases w)
    case Nil
    then show ?thesis by (simp add: weighted_sum_def row_weight_def)
  next
    case w: (Cons x w')
    have nn: "\<forall>x \<in> set w'. 0 \<le> sint x" "0 \<le> sint x" using Cons.prems w by simp_all
    have rest: "0 \<le> weighted_sum w' z" using nn by (simp add: weighted_sum_nonneg)
    have lt: "weighted_sum w' z < 2 ^ 63" using Cons.prems(2) w nn by (auto split: if_splits)
    have IH: "sint (row_weight w' z) = weighted_sum w' z" using Cons.IH [OF nn(1) lt] .
    show ?thesis
    proof (cases b)
      case True
      have "sint (x + row_weight w' z) = sint x + sint (row_weight w' z)"
        using nn rest IH Cons.prems(2) w True by (intro sint_add_in_range) simp_all
      with True w IH show ?thesis by simp
    next
      case False
      with w IH show ?thesis by simp
    qed
  qed
qed


subsection \<open>The removal loop for one individual\<close>


text \<open>When the loop returns: the row keeps its length, no item is newly selected, the
  tracked weight is within capacity, a row within capacity is left alone, and the generator
  has advanced by one draw for each item that was unselected.\<close>

lemma repair_while_Inr:
  "repair_while Q w z wt g = (Inr (z', wt'), g') \<Longrightarrow>
     length z' = length z \<and> (\<forall>j < length z. z' ! j \<longrightarrow> z ! j) \<and> sint wt' \<le> sint Q
     \<and> (sint wt \<le> sint Q \<longrightarrow> z' = z \<and> wt' = wt \<and> g' = g)
     \<and> used g' + length (np_where z') = used g + length (np_where z)"
proof (induction Q w z wt g rule: repair_while.induct)
  case (1 Q w z wt g)
  show ?case
  proof (cases "sint wt > sint Q")
    case False
    with "1.prems" show ?thesis by (simp add: repair_while.simps)
  next
    case True
    obtain c g1 where ch: "choice (np_where z) g = (c, g1)" by (cases "choice (np_where z) g")
    show ?thesis
    proof (cases c)
      case (Inl e)
      with True ch "1.prems" show ?thesis by (simp add: repair_while.simps [of Q w z])
    next
      case (Inr item)
      with True ch "1.prems"
      have rec: "repair_while Q w (z[item := False]) (wt - w ! item) g1 = (Inr (z', wt'), g')"
        by (simp add: repair_while.simps [of Q w z])
      from choice_Inr [of "np_where z" g item g1] ch Inr
      have mem: "item \<in> set (np_where z)" and g1: "used g1 = Suc (used g)"
        by simp_all
      have item: "item < length z" using mem by (simp add: set_np_where)
      note IH = "1.IH" [OF True ch [symmetric] Inr rec]
      have "\<forall>j < length z. z' ! j \<longrightarrow> z ! j"
        using IH item by (auto simp: nth_list_update split: if_splits)
      with IH g1 np_where_unselect_Suc [OF mem] True show ?thesis by simp
    qed
  qed
qed

text \<open>The tracked weight stays the 64-bit weight of the row.\<close>

lemma repair_while_tracks:
  "repair_while Q w z wt g = (Inr (z', wt'), g') \<Longrightarrow> length z = length w
     \<Longrightarrow> wt = row_weight w z \<Longrightarrow> wt' = row_weight w z'"
proof (induction Q w z wt g rule: repair_while.induct)
  case (1 Q w z wt g)
  show ?case
  proof (cases "sint wt > sint Q")
    case False
    with "1.prems" show ?thesis by (auto simp: repair_while.simps)
  next
    case True
    obtain c g1 where ch: "choice (np_where z) g = (c, g1)" by (cases "choice (np_where z) g")
    show ?thesis
    proof (cases c)
      case (Inl e)
      with True ch "1.prems" show ?thesis by (simp add: repair_while.simps [of Q w z])
    next
      case (Inr item)
      with True ch "1.prems"
      have rec: "repair_while Q w (z[item := False]) (wt - w ! item) g1 = (Inr (z', wt'), g')"
        by (simp add: repair_while.simps [of Q w z])
      from choice_Inr [of "np_where z" g item g1] ch Inr
      have mem: "item \<in> set (np_where z)" by simp
      then have item: "item < length z" "z ! item" by (simp_all add: set_np_where)
      have wt1: "wt - w ! item = row_weight w (z[item := False])"
        using item "1.prems" by (simp add: row_weight_unselect)
      have len1: "length (z[item := False]) = length w" using "1.prems" by simp
      from "1.IH" [OF True ch [symmetric] Inr rec len1 wt1] show ?thesis .
    qed
  qed
qed


text \<open>An exception is raised only there: in a state of the loop with the tracked weight over
  the capacity and nothing selected. With the tracked weight the weight of the row, that
  needs a negative capacity.\<close>

lemma repair_while_Inl_capacity:
  "repair_while Q w z wt g = (Inl e, g') \<Longrightarrow> length z = length w
     \<Longrightarrow> wt = row_weight w z \<Longrightarrow> sint Q < 0"
proof (induction Q w z wt g rule: repair_while.induct)
  case (1 Q w z wt g)
  show ?case
  proof (cases "sint wt > sint Q")
    case False
    with "1.prems" show ?thesis by (simp add: repair_while.simps)
  next
    case True
    obtain c g1 where ch: "choice (np_where z) g = (c, g1)" by (cases "choice (np_where z) g")
    show ?thesis
    proof (cases c)
      case (Inl e')
      with ch choice_Inl [of "np_where z" g e' g1] have "np_where z = []" by simp
      then have "row_weight w z = 0" by (simp add: np_where_Nil_iff row_weight_none)
      with True "1.prems" show ?thesis by simp
    next
      case (Inr item)
      with True ch "1.prems"
      have rec: "repair_while Q w (z[item := False]) (wt - w ! item) g1 = (Inl e, g')"
        by (simp add: repair_while.simps [of Q w z])
      from choice_Inr [of "np_where z" g item g1] ch Inr
      have mem: "item \<in> set (np_where z)" by simp
      then have item: "item < length z" "z ! item" by (simp_all add: set_np_where)
      have wt1: "wt - w ! item = row_weight w (z[item := False])"
        using item "1.prems" by (simp add: row_weight_unselect)
      have len1: "length (z[item := False]) = length w" using "1.prems" by simp
      from "1.IH" [OF True ch [symmetric] Inr rec len1 wt1] show ?thesis .
    qed
  qed
qed


subsection \<open>The loop over the population\<close>



text \<open>When the loop over the rows returns: rows outside \<open>is\<close> are untouched.\<close>

lemma repair_for_Inr:
  "repair_for Q w is Z weights g = (Inr (Z', weights'), g') \<Longrightarrow>
     \<forall>i \<in> set is. i < length Z \<Longrightarrow> length weights = length Z \<Longrightarrow> distinct is \<Longrightarrow>
     length Z' = length Z \<and> length weights' = length Z
     \<and> (\<forall>i < length Z. length (Z' ! i) = length (Z ! i)
            \<and> (\<forall>j < length (Z ! i). Z' ! i ! j \<longrightarrow> Z ! i ! j))
     \<and> (\<forall>i < length Z. i \<notin> set is \<longrightarrow> Z' ! i = Z ! i \<and> weights' ! i = weights ! i)
     \<and> (\<forall>i \<in> set is. sint (weights' ! i) \<le> sint Q
            \<and> (sint (weights ! i) \<le> sint Q \<longrightarrow> Z' ! i = Z ! i))"
proof (induction "is" arbitrary: Z weights g)
  case Nil
  then show ?case by simp
next
  case (Cons i "is")
  from Cons.prems(1) obtain z wt g1 where
    wh: "repair_while Q w (Z ! i) (weights ! i) g = (Inr (z, wt), g1)" and
    rec: "repair_for Q w is (Z[i := z]) (weights[i := wt]) g1 = (Inr (Z', weights'), g')"
    by (auto split: prod.splits sum.splits)
  note W = repair_while_Inr [OF wh]
  have i: "i < length Z" "i \<notin> set is" "distinct is" using Cons.prems by auto
  have pre: "\<forall>k \<in> set is. k < length (Z[i := z])" "length (weights[i := wt]) = length (Z[i := z])"
    using Cons.prems by auto
  note IH = Cons.IH [OF rec pre i(3)]
  have len: "length Z' = length Z" "length weights' = length Z" using IH by simp_all
  have at_i: "Z' ! i = z" "weights' ! i = wt"
    using IH i Cons.prems(3) by auto
  have rows: "\<forall>k < length Z. length (Z' ! k) = length (Z ! k)
            \<and> (\<forall>j < length (Z ! k). Z' ! k ! j \<longrightarrow> Z ! k ! j)"
  proof (intro allI impI)
    fix k assume k: "k < length Z"
    have *: "length (Z' ! k) = length ((Z[i := z]) ! k)
          \<and> (\<forall>j < length ((Z[i := z]) ! k). Z' ! k ! j \<longrightarrow> (Z[i := z]) ! k ! j)"
      using IH k by simp
    show "length (Z' ! k) = length (Z ! k) \<and> (\<forall>j < length (Z ! k). Z' ! k ! j \<longrightarrow> Z ! k ! j)"
    proof (cases "k = i")
      case True
      with * i W show ?thesis by simp
    next
      case False
      with * show ?thesis by simp
    qed
  qed
  have frame: "\<forall>k < length Z. k \<notin> set (i # is) \<longrightarrow> Z' ! k = Z ! k \<and> weights' ! k = weights ! k"
    using IH by auto
  have done_rows: "\<forall>k \<in> set (i # is). sint (weights' ! k) \<le> sint Q
      \<and> (sint (weights ! k) \<le> sint Q \<longrightarrow> Z' ! k = Z ! k)"
  proof
    fix k assume "k \<in> set (i # is)"
    then consider "k = i" | "k \<in> set is" "k \<noteq> i" using i by auto
    then show "sint (weights' ! k) \<le> sint Q \<and> (sint (weights ! k) \<le> sint Q \<longrightarrow> Z' ! k = Z ! k)"
    proof cases
      case 1
      with at_i W show ?thesis by simp
    next
      case 2
      with IH have "sint (weights' ! k) \<le> sint Q
          \<and> (sint ((weights[i := wt]) ! k) \<le> sint Q \<longrightarrow> Z' ! k = (Z[i := z]) ! k)"
        by blast
      with 2 show ?thesis by simp
    qed
  qed
  from len rows frame done_rows show ?case by blast
qed

text \<open>The tracked weights stay the 64-bit weights of the rows.\<close>

lemma repair_for_tracks:
  "repair_for Q w is Z weights g = (Inr (Z', weights'), g') \<Longrightarrow>
     length weights = length Z \<Longrightarrow> distinct is \<Longrightarrow>
     \<forall>i \<in> set is. i < length Z \<and> length (Z ! i) = length w \<and> weights ! i = row_weight w (Z ! i) \<Longrightarrow>
     \<forall>i \<in> set is. weights' ! i = row_weight w (Z' ! i)"
proof (induction "is" arbitrary: Z weights g)
  case Nil
  then show ?case by simp
next
  case (Cons i "is")
  from Cons.prems(1) obtain z wt g1 where
    wh: "repair_while Q w (Z ! i) (weights ! i) g = (Inr (z, wt), g1)" and
    rec: "repair_for Q w is (Z[i := z]) (weights[i := wt]) g1 = (Inr (Z', weights'), g')"
    by (auto split: prod.splits sum.splits)
  have i: "i < length Z" "i \<notin> set is" "distinct is" "length (Z ! i) = length w"
    "weights ! i = row_weight w (Z ! i)"
    using Cons.prems by auto
  have wt: "wt = row_weight w z" using repair_while_tracks [OF wh i(4) i(5)] .
  have lenz: "length z = length w" using repair_while_Inr [OF wh] i by simp
  let ?Z1 = "Z[i := z]" and ?w1 = "weights[i := wt]"
  have pre: "length ?w1 = length ?Z1"
    "\<forall>k \<in> set is. k < length ?Z1 \<and> length (?Z1 ! k) = length w \<and> ?w1 ! k = row_weight w (?Z1 ! k)"
    using Cons.prems i by (auto simp: nth_list_update)
  note IH = Cons.IH [OF rec pre(1) i(3) pre(2)]
  have pre': "\<forall>k \<in> set is. k < length ?Z1" using pre(2) by blast
  from repair_for_Inr [OF rec pre' pre(1) i(3)] i
  have "Z' ! i = z" "weights' ! i = wt"
    using Cons.prems(2) by auto
  with IH wt show ?case by simp
qed

text \<open>An exception needs a negative capacity.\<close>

lemma repair_for_Inl_capacity:
  "repair_for Q w is Z weights g = (Inl e, g') \<Longrightarrow>
     length weights = length Z \<Longrightarrow> distinct is \<Longrightarrow>
     \<forall>i \<in> set is. i < length Z \<and> length (Z ! i) = length w \<and> weights ! i = row_weight w (Z ! i) \<Longrightarrow>
     sint Q < 0"
proof (induction "is" arbitrary: Z weights g)
  case Nil
  then show ?case by simp
next
  case (Cons i "is")
  have i: "i < length Z" "i \<notin> set is" "distinct is" "length (Z ! i) = length w"
    "weights ! i = row_weight w (Z ! i)"
    using Cons.prems by auto
  obtain c g1 where wh: "repair_while Q w (Z ! i) (weights ! i) g = (c, g1)"
    by (cases "repair_while Q w (Z ! i) (weights ! i) g")
  show ?case
  proof (cases c)
    case (Inl e')
    with wh repair_while_Inl_capacity [of Q w "Z ! i" "weights ! i" g e' g1] i
    show ?thesis by simp
  next
    case (Inr p)
    obtain z wt where p: "p = (z, wt)" by (cases p)
    with wh Inr have wh': "repair_while Q w (Z ! i) (weights ! i) g = (Inr (z, wt), g1)" by simp
    with Cons.prems(1)
    have rec: "repair_for Q w is (Z[i := z]) (weights[i := wt]) g1 = (Inl e, g')" by simp
    have wt: "wt = row_weight w z" using repair_while_tracks [OF wh' i(4) i(5)] .
    have lenz: "length z = length w" using repair_while_Inr [OF wh'] i by simp
    have pre: "length (weights[i := wt]) = length (Z[i := z])"
      "\<forall>k \<in> set is. k < length (Z[i := z]) \<and> length ((Z[i := z]) ! k) = length w
          \<and> (weights[i := wt]) ! k = row_weight w ((Z[i := z]) ! k)"
      using Cons.prems i by (auto simp: nth_list_update)
    from Cons.IH [OF rec pre(1) i(3) pre(2)] show ?thesis .
  qed
qed


subsection \<open>The method on a population\<close>

lemma length_pop_set_X: "length Z = length pop \<Longrightarrow> length (pop_set_X pop Z) = length pop"
  by (simp add: pop_set_X_def)

lemma nth_pop_set_X:
  "length Z = length pop \<Longrightarrow> i < length pop \<Longrightarrow>
     X (pop_set_X pop Z ! i) = Z ! i \<and> attrs (pop_set_X pop Z ! i) = attrs (pop ! i)"
  by (simp add: pop_set_X_def)

lemma attrs_pop_set_X: "length Z = length pop \<Longrightarrow> map attrs (pop_set_X pop Z) = map attrs pop"
  by (rule nth_equalityI) (simp_all add: length_pop_set_X nth_pop_set_X)


lemma do_cases:
  obtains (raised) e g' where
      "repair_for (C problem) (W problem) [0..<length pop] (map X pop)
         (map (row_weight (W problem)) (map X pop)) g = (Inl e, g')"
      "ConsiderMaximumWeightRepair_do problem pop g = (Inl e, g')"
  | (returned) Z' weights' g' where
      "repair_for (C problem) (W problem) [0..<length pop] (map X pop)
         (map (row_weight (W problem)) (map X pop)) g = (Inr (Z', weights'), g')"
      "ConsiderMaximumWeightRepair_do problem pop g = (Inr (pop_set_X pop Z'), g')"
proof -
  let ?rf = "repair_for (C problem) (W problem) [0..<length pop] (map X pop)
         (map (row_weight (W problem)) (map X pop)) g"
  obtain r g' where rf: "?rf = (r, g')" by (cases ?rf)
  show thesis
  proof (cases r)
    case (Inl e)
    with rf show ?thesis
      by (intro raised [of e g'])
         (simp_all add: ConsiderMaximumWeightRepair_do_def pop_get_X_def Let_def)
  next
    case (Inr p)
    obtain Z' weights' where "p = (Z', weights')" by (cases p)
    with rf Inr show ?thesis
      by (intro returned [of Z' weights' g'])
         (simp_all add: ConsiderMaximumWeightRepair_do_def pop_get_X_def Let_def)
  qed
qed


text \<open>What a returned population looks like.\<close>

lemma do_returned:
  assumes "ConsiderMaximumWeightRepair_do problem pop g = (Inr pop', g')"
  shows "length pop' = length pop" and "map attrs pop' = map attrs pop"
    and "\<forall>i < length pop. length (X (pop' ! i)) = length (X (pop ! i))
           \<and> (\<forall>j < length (X (pop ! i)). X (pop' ! i) ! j \<longrightarrow> X (pop ! i) ! j)
           \<and> (sint (row_weight (W problem) (X (pop ! i))) \<le> sint (C problem)
                \<longrightarrow> X (pop' ! i) = X (pop ! i))"
    and "\<forall>ind \<in> set pop. length (X ind) = length (W problem) \<Longrightarrow>
           \<forall>ind \<in> set pop'. sint (row_weight (W problem) (X ind)) \<le> sint (C problem)"
proof -
  let ?Z = "map X pop" and ?ws = "map (row_weight (W problem)) (map X pop)"
  from assms obtain Z' weights' where
    rf: "repair_for (C problem) (W problem) [0..<length pop] ?Z ?ws g = (Inr (Z', weights'), g')"
    and pop': "pop' = pop_set_X pop Z'"
    by (cases rule: do_cases [of problem pop g]) auto
  have pre: "\<forall>i \<in> set [0..<length pop]. i < length ?Z" "length ?ws = length ?Z"
    "distinct [0..<length pop]"
    by simp_all
  note R = repair_for_Inr [OF rf pre]
  have len: "length Z' = length pop" using R by simp
  show "length pop' = length pop" using len pop' by (simp add: length_pop_set_X)
  show "map attrs pop' = map attrs pop" using len pop' by (simp add: attrs_pop_set_X)
  show "\<forall>i < length pop. length (X (pop' ! i)) = length (X (pop ! i))
           \<and> (\<forall>j < length (X (pop ! i)). X (pop' ! i) ! j \<longrightarrow> X (pop ! i) ! j)
           \<and> (sint (row_weight (W problem) (X (pop ! i))) \<le> sint (C problem)
                \<longrightarrow> X (pop' ! i) = X (pop ! i))"
  proof (intro allI impI)
    fix i assume i: "i < length pop"
    then have x: "X (pop' ! i) = Z' ! i" using len pop' by (simp add: nth_pop_set_X)
    from R i have a: "length (Z' ! i) = length (?Z ! i)"
      "\<forall>j < length (?Z ! i). Z' ! i ! j \<longrightarrow> ?Z ! i ! j"
      by simp_all
    from R i have b: "sint (?ws ! i) \<le> sint (C problem) \<longrightarrow> Z' ! i = ?Z ! i" by simp
    from a b x i show "length (X (pop' ! i)) = length (X (pop ! i))
           \<and> (\<forall>j < length (X (pop ! i)). X (pop' ! i) ! j \<longrightarrow> X (pop ! i) ! j)
           \<and> (sint (row_weight (W problem) (X (pop ! i))) \<le> sint (C problem)
                \<longrightarrow> X (pop' ! i) = X (pop ! i))"
      by simp
  qed
  show "\<forall>ind \<in> set pop'. sint (row_weight (W problem) (X ind)) \<le> sint (C problem)"
    if shape: "\<forall>ind \<in> set pop. length (X ind) = length (W problem)"
  proof
    fix ind assume "ind \<in> set pop'"
    then obtain i where i: "i < length pop" "ind = pop_set_X pop Z' ! i"
      using len pop' by (auto simp: in_set_conv_nth length_pop_set_X)
    then have x: "X ind = Z' ! i" using len by (simp add: nth_pop_set_X)
    have pre2: "\<forall>i \<in> set [0..<length pop]. i < length ?Z \<and> length (?Z ! i) = length (W problem)
        \<and> ?ws ! i = row_weight (W problem) (?Z ! i)"
      using shape by simp
    from repair_for_tracks [OF rf pre(2) pre(3) pre2] i
    have "weights' ! i = row_weight (W problem) (Z' ! i)" by simp
    moreover have "sint (weights' ! i) \<le> sint (C problem)" using R i by simp
    ultimately show "sint (row_weight (W problem) (X ind)) \<le> sint (C problem)"
      using x by simp
  qed
qed

text \<open>An exception needs a negative capacity: with a capacity that is not negative the
  method returns.\<close>

lemma do_Inl_capacity:
  assumes "ConsiderMaximumWeightRepair_do problem pop g = (Inl e, g')"
    and "\<forall>ind \<in> set pop. length (X ind) = length (W problem)"
  shows "sint (C problem) < 0"
proof -
  let ?Z = "map X pop" and ?ws = "map (row_weight (W problem)) (map X pop)"
  from assms(1) have
    rf: "repair_for (C problem) (W problem) [0..<length pop] ?Z ?ws g = (Inl e, g')"
    by (cases rule: do_cases [of problem pop g]) auto
  have pre: "length ?ws = length ?Z" "distinct [0..<length pop]"
    "\<forall>i \<in> set [0..<length pop]. i < length ?Z \<and> length (?Z ! i) = length (W problem)
        \<and> ?ws ! i = row_weight (W problem) (?Z ! i)"
    using assms(2) by simp_all
  from repair_for_Inl_capacity [OF rf pre] show ?thesis .
qed

lemma do_feasible:
  assumes "0 \<le> sint (C problem)" and "\<forall>ind \<in> set pop. length (X ind) = length (W problem)"
  shows "\<exists>pop' g'. ConsiderMaximumWeightRepair_do problem pop g = (Inr pop', g')"
proof -
  obtain r g' where res: "ConsiderMaximumWeightRepair_do problem pop g = (r, g')"
    by (cases "ConsiderMaximumWeightRepair_do problem pop g")
  show ?thesis
  proof (cases r)
    case (Inl e)
    with res do_Inl_capacity [of problem pop g e g'] assms show ?thesis by simp
  next
    case (Inr pop')
    with res show ?thesis by blast
  qed
qed


subsection \<open>Properties of the repair operator\<close>







text \<open>
  C8 (same cardinality). On a population of vectors of the problem's length: whenever
  \<^verbatim>\<open>_do\<close> returns a population, it has as many individuals as the input, and every
  individual keeps everything but its \<^verbatim>\<open>X\<close>; and for a capacity that is not negative
  \<^verbatim>\<open>_do\<close> does return.
\<close>

theorem repair_same_cardinality:
  assumes "\<forall>ind \<in> set pop. length (X ind) = length (W problem)"
  shows "(0 \<le> sint (C problem)
            \<longrightarrow> (\<exists>pop' g'. ConsiderMaximumWeightRepair_do problem pop g = (Inr pop', g')))
       \<and> (\<forall>pop' g'. ConsiderMaximumWeightRepair_do problem pop g = (Inr pop', g')
            \<longrightarrow> length pop' = length pop \<and> map attrs pop' = map attrs pop)"
proof (intro conjI impI allI)
  assume "0 \<le> sint (C problem)"
  then show "\<exists>pop' g'. ConsiderMaximumWeightRepair_do problem pop g = (Inr pop', g')"
    using do_feasible [of problem pop g] assms by blast
next
  fix pop' g'
  assume "ConsiderMaximumWeightRepair_do problem pop g = (Inr pop', g')"
  then show "length pop' = length pop" by (rule do_returned(1))
next
  fix pop' g'
  assume "ConsiderMaximumWeightRepair_do problem pop g = (Inr pop', g')"
  then show "map attrs pop' = map attrs pop" by (rule do_returned(2))
qed

theorem repair_same_cardinality_witness:
  "0 \<le> sint (C \<lparr>C = 3, W = [2, 2, 2]\<rparr>)
   \<and> length [True, True, True] = length (W \<lparr>C = 3, W = [2, 2, 2]\<rparr>)
   \<and> length [False, True, False] = length (W \<lparr>C = 3, W = [2, 2, 2]\<rparr>)
   \<and> ConsiderMaximumWeightRepair_do \<lparr>C = 3, W = [2, 2, 2]\<rparr>
       [\<lparr>X = [True, True, True], attrs = ''a''\<rparr>, \<lparr>X = [False, True, False], attrs = ''b''\<rparr>]
       \<lparr>draws = id, used = 0\<rparr>
     = (Inr [\<lparr>X = [False, True, False], attrs = ''a''\<rparr>, \<lparr>X = [False, True, False], attrs = ''b''\<rparr>],
        \<lparr>draws = id, used = 2\<rparr>)
   \<and> length [\<lparr>X = [False, True, False], attrs = ''a''\<rparr>, \<lparr>X = [False, True, False], attrs = ''b''\<rparr>] = 2
   \<and> map attrs [\<lparr>X = [False, True, False], attrs = ''a''\<rparr>, \<lparr>X = [False, True, False], attrs = ''b''\<rparr>]
     = [''a'', ''b'']"
proof -
  have run: "ConsiderMaximumWeightRepair_do \<lparr>C = 3, W = [2, 2, 2]\<rparr>
       [\<lparr>X = [True, True, True], attrs = ''a''\<rparr>, \<lparr>X = [False, True, False], attrs = ''b''\<rparr>]
       \<lparr>draws = id, used = 0\<rparr>
     = (Inr [\<lparr>X = [False, True, False], attrs = ''a''\<rparr>, \<lparr>X = [False, True, False], attrs = ''b''\<rparr>],
        \<lparr>draws = id, used = 2\<rparr>)"
    by (simp add: ConsiderMaximumWeightRepair_do_def pop_get_X_def pop_set_X_def
        repair_while.simps choice_def np_where_def)
  from repair_same_cardinality [where problem = "\<lparr>C = 3, W = [2, 2, 2]\<rparr>"
      and pop = "[\<lparr>X = [True, True, True], attrs = ''a''\<rparr>, \<lparr>X = [False, True, False], attrs = ''b''\<rparr>]"
      and g = "\<lparr>draws = id, used = 0\<rparr>"] run
  show ?thesis by simp
qed

text \<open>
  C9 (unit removals only). On a population of vectors of the problem's length, whenever
  \<^verbatim>\<open>_do\<close> returns, every individual keeps the length of its decision vector, every item
  that was unselected before the repair is unselected after it, and an individual whose
  weighted sum was within the capacity has the decision vector it had: that is so for the
  sum as the code computes it, in 64 bits, and, with non-negative item weights, for the
  weighted sum itself.
\<close>

theorem repair_only_removes:
  assumes "\<forall>ind \<in> set pop. length (X ind) = length (W problem)"
    and "ConsiderMaximumWeightRepair_do problem pop g = (Inr pop', g')"
  shows "\<forall>i < length pop. length (X (pop' ! i)) = length (X (pop ! i))
           \<and> (\<forall>j < length (X (pop ! i)). \<not> X (pop ! i) ! j \<longrightarrow> \<not> X (pop' ! i) ! j)
           \<and> (sint (row_weight (W problem) (X (pop ! i))) \<le> sint (C problem)
                \<longrightarrow> X (pop' ! i) = X (pop ! i))
           \<and> ((\<forall>x \<in> set (W problem). 0 \<le> sint x)
                  \<and> weighted_sum (W problem) (X (pop ! i)) \<le> sint (C problem)
                \<longrightarrow> X (pop' ! i) = X (pop ! i))"
proof (intro allI impI)
  fix i assume i: "i < length pop"
  note R = do_returned(3) [OF assms(2), rule_format, OF i]
  have exact: "X (pop' ! i) = X (pop ! i)"
    if nn: "\<forall>x \<in> set (W problem). 0 \<le> sint x"
      and le: "weighted_sum (W problem) (X (pop ! i)) \<le> sint (C problem)"
  proof -
    have "sint (C problem) < 2 ^ 63" using sint_lt [of "C problem"] by simp
    with le have "weighted_sum (W problem) (X (pop ! i)) < 2 ^ 63" by simp
    with nn have "sint (row_weight (W problem) (X (pop ! i))) = weighted_sum (W problem) (X (pop ! i))"
      by (intro sint_row_weight) simp_all
    with le R show ?thesis by simp
  qed
  from R exact
  show "length (X (pop' ! i)) = length (X (pop ! i))
           \<and> (\<forall>j < length (X (pop ! i)). \<not> X (pop ! i) ! j \<longrightarrow> \<not> X (pop' ! i) ! j)
           \<and> (sint (row_weight (W problem) (X (pop ! i))) \<le> sint (C problem)
                \<longrightarrow> X (pop' ! i) = X (pop ! i))
           \<and> ((\<forall>x \<in> set (W problem). 0 \<le> sint x)
                  \<and> weighted_sum (W problem) (X (pop ! i)) \<le> sint (C problem)
                \<longrightarrow> X (pop' ! i) = X (pop ! i))"
    by blast
qed

theorem repair_only_removes_witness:
  "length [False, True, True] = length (W \<lparr>C = 3, W = [2, 2, 2]\<rparr>)
   \<and> length [False, True, False] = length (W \<lparr>C = 3, W = [2, 2, 2]\<rparr>)
   \<and> ConsiderMaximumWeightRepair_do \<lparr>C = 3, W = [2, 2, 2]\<rparr>
       [\<lparr>X = [False, True, True], attrs = ()\<rparr>, \<lparr>X = [False, True, False], attrs = ()\<rparr>]
       \<lparr>draws = id, used = 0\<rparr>
     = (Inr [\<lparr>X = [False, False, True], attrs = ()\<rparr>, \<lparr>X = [False, True, False], attrs = ()\<rparr>],
        \<lparr>draws = id, used = 1\<rparr>)
   \<and> \<not> [False, True, True] ! 0 \<and> \<not> [False, False, True] ! 0
   \<and> length [False, False, True] = length [False, True, True]
   \<and> weighted_sum [2, 2, 2] [False, True, False] \<le> sint (3 :: int64)"
proof -
  have shape: "\<forall>ind \<in> set [\<lparr>X = [False, True, True], attrs = ()\<rparr>, \<lparr>X = [False, True, False], attrs = ()\<rparr>].
      length (X ind) = length (W \<lparr>C = 3, W = [2, 2, 2]\<rparr>)"
    by simp
  have run: "ConsiderMaximumWeightRepair_do \<lparr>C = 3, W = [2, 2, 2]\<rparr>
       [\<lparr>X = [False, True, True], attrs = ()\<rparr>, \<lparr>X = [False, True, False], attrs = ()\<rparr>]
       \<lparr>draws = id, used = 0\<rparr>
     = (Inr [\<lparr>X = [False, False, True], attrs = ()\<rparr>, \<lparr>X = [False, True, False], attrs = ()\<rparr>],
        \<lparr>draws = id, used = 1\<rparr>)"
    by (simp add: ConsiderMaximumWeightRepair_do_def pop_get_X_def pop_set_X_def
        repair_while.simps choice_def np_where_def)
  from repair_only_removes [OF shape run] run show ?thesis by (simp add: weighted_sum_def)
qed

section \<open>Proofs for the random-key permutation problem\<close>

subsection \<open>The sort order\<close>

lemma length_argsort [simp]: "length (argsort x) = length x"
  by (simp add: argsort_def)

lemma mset_argsort: "mset (argsort x) = mset [0..<length x]"
proof -
  have "mset (argsort x) = mset (map snd (zip x [0..<length x]))"
    by (simp only: argsort_def mset_map mset_sort)
  moreover have "map snd (zip x [0..<length x]) = [0..<length x]"
    by simp
  ultimately show ?thesis by (simp only:)
qed

lemma set_argsort: "set (argsort x) = {..<length x}"
proof -
  have "set (argsort x) = set [0..<length x]"
    using mset_argsort by (rule mset_eq_setD)
  then show ?thesis by (simp add: atLeast0LessThan)
qed

lemma sorted_argsort: "sorted (map (\<lambda>i. x ! i) (argsort x))"
proof -
  let ?ps = "sort_key fst (zip x [0..<length x])"
  have "\<forall>p \<in> set ?ps. x ! snd p = fst p"
    by (auto simp: in_set_zip)
  then have "map (\<lambda>i. x ! i) (argsort x) = map fst ?ps"
    by (simp add: argsort_def)
  then show ?thesis by simp
qed

lemma eq_sum_Nil [simp]: "eq_sum [] b = 0" "eq_sum a [] = 0"
  by (simp_all add: eq_sum_def)

lemma eq_sum_Cons [simp]: "eq_sum (c # a) (p # b) = (if c = p then 1 else 0) + eq_sum a b"
  by (simp add: eq_sum_def)

lemma eq_sum_bounds: "0 \<le> eq_sum a b \<and> eq_sum a b \<le> int (length a)"
proof (induction a arbitrary: b)
  case Nil
  then show ?case by simp
next
  case (Cons c a)
  show ?case
  proof (cases b)
    case Nil
    then show ?thesis by simp
  next
    case (Cons p b')
    with Cons.IH [of b'] show ?thesis by simp
  qed
qed

lemma eq_sum_full: "length a = length b \<Longrightarrow> eq_sum a b = int (length a) \<longleftrightarrow> a = b"
proof (induction a b rule: list_induct2)
  case Nil
  then show ?case by simp
next
  case (Cons c a p b)
  have "eq_sum a b \<le> int (length a)" using eq_sum_bounds [of a b] by simp
  with Cons.IH show ?case by auto
qed

lemma eq_sum_card:
  "length a = length b \<Longrightarrow> eq_sum a b = int (card {i. i < length a \<and> a ! i = b ! i})"
proof -
  assume len: "length a = length b"
  have "map2 (\<lambda>c p. if c = p then 1 else 0) a b
      = map (\<lambda>i. if a ! i = b ! i then (1::int) else 0) [0..<length a]"
    using len by (intro nth_equalityI) simp_all
  moreover have "sum_list (map (\<lambda>i. if P i then (1::int) else 0) is) = int (length (filter P is))"
    for P and "is" :: "nat list"
    by (induction "is") simp_all
  ultimately have "eq_sum a b = int (length (filter (\<lambda>i. a ! i = b ! i) [0..<length a]))"
    by (simp add: eq_sum_def)
  also have "length (filter (\<lambda>i. a ! i = b ! i) [0..<length a]) = card {i. i < length a \<and> a ! i = b ! i}"
    unfolding length_filter_conv_card by (rule arg_cong [where f = card]) auto
  finally show ?thesis .
qed

subsection \<open>Properties of the problem\<close>

text \<open>
  C10 (the objective). For every key vector \<open>x\<close> of the length \<open>n\<close> of the target list,
  the objective \<open>F\<close> is the negated number of positions at which the sort order of \<open>x\<close>
  agrees with the sort order of the target list, so \<open>-n \<le> F \<le> 0\<close>, and \<open>F = -n\<close>
  exactly when the phenotype is the target's sort order.
\<close>

theorem evaluate_objective:
  assumes "length x = length my_list"
  shows "F (MyProblem_evaluate py_hash np_str (MyProblem_init my_list) x)
           = - int (card {i. i < length my_list \<and> argsort my_list ! i = argsort x ! i})
       \<and> - int (length my_list) \<le> F (MyProblem_evaluate py_hash np_str (MyProblem_init my_list) x)
       \<and> F (MyProblem_evaluate py_hash np_str (MyProblem_init my_list) x) \<le> 0
       \<and> (F (MyProblem_evaluate py_hash np_str (MyProblem_init my_list) x) = - int (length my_list)
            \<longleftrightarrow> pheno (MyProblem_evaluate py_hash np_str (MyProblem_init my_list) x)
                  = correct (MyProblem_init my_list))"
proof -
  let ?c = "argsort my_list" and ?p = "argsort x"
  have len: "length ?c = length ?p" using assms by simp
  have F: "F (MyProblem_evaluate py_hash np_str (MyProblem_init my_list) x) = - eq_sum ?c ?p"
    and P: "pheno (MyProblem_evaluate py_hash np_str (MyProblem_init my_list) x) = ?p"
    and C: "correct (MyProblem_init my_list) = ?c"
    by (simp_all add: MyProblem_evaluate_def MyProblem_init_def Let_def)
  have card: "eq_sum ?c ?p = int (card {i. i < length my_list \<and> ?c ! i = ?p ! i})"
    using eq_sum_card [OF len] by simp
  have bounds: "0 \<le> eq_sum ?c ?p" "eq_sum ?c ?p \<le> int (length my_list)"
    using eq_sum_bounds [of ?c ?p] by simp_all
  have full: "eq_sum ?c ?p = int (length my_list) \<longleftrightarrow> ?c = ?p"
    using eq_sum_full [OF len] by simp
  have 1: "- eq_sum ?c ?p = - int (card {i. i < length my_list \<and> ?c ! i = ?p ! i})"
    using card by simp
  have 2: "- int (length my_list) \<le> - eq_sum ?c ?p" using bounds by simp
  have 3: "- eq_sum ?c ?p \<le> 0" using bounds by simp
  have 4: "- eq_sum ?c ?p = - int (length my_list) \<longleftrightarrow> ?p = ?c"
    using full by (simp add: eq_commute [of ?c ?p])
  show ?thesis
    unfolding F P C using 1 2 3 4 by (intro conjI)
qed

theorem evaluate_objective_witness:
  "length [2, 9, 4 :: int] = length [10, 30, 20 :: int]
   \<and> F (MyProblem_evaluate (\<lambda>s. int (length s)) (map (\<lambda>i. char_of i))
          (MyProblem_init [10, 30, 20 :: int]) [2, 9, 4 :: int]) = - 3
   \<and> F (MyProblem_evaluate (\<lambda>s. int (length s)) (map (\<lambda>i. char_of i))
          (MyProblem_init [10, 30, 20 :: int]) [9, 2, 4 :: int]) = - 1
   \<and> pheno (MyProblem_evaluate (\<lambda>s. int (length s)) (map (\<lambda>i. char_of i))
          (MyProblem_init [10, 30, 20 :: int]) [9, 2, 4 :: int]) \<noteq> correct (MyProblem_init [10, 30, 20 :: int])"
  using evaluate_objective [of "[2, 9, 4 :: int]" "[10, 30, 20 :: int]" "\<lambda>s. int (length s)" "map (\<lambda>i. char_of i)"]
    evaluate_objective [of "[9, 2, 4 :: int]" "[10, 30, 20 :: int]" "\<lambda>s. int (length s)" "map (\<lambda>i. char_of i)"]
  by (simp add: MyProblem_evaluate_def MyProblem_init_def argsort_def Let_def)

text \<open>
  C6 (duplicates by phenotype). For two individuals that carry the outputs of
  \<^verbatim>\<open>_evaluate\<close>, \<^verbatim>\<open>is_equal\<close> returns, and its value is whether their \<^verbatim>\<open>hash\<close>
  attributes are equal; in particular two individuals whose keys have the same sort order
  are duplicates, whatever their keys.
\<close>

theorem is_equal_compares_hash:
  assumes "evaluated_by py_hash np_str problem a" and "evaluated_by py_hash np_str problem b"
  shows "is_equal a b = Inr (attrs a ''hash'' = attrs b ''hash'')
       \<and> (argsort (X a) = argsort (X b) \<longrightarrow> is_equal a b = Inr True)"
proof -
  from assms have ha: "attrs a ''hash'' = Some [py_hash (np_str (argsort (X a)))]"
    and hb: "attrs b ''hash'' = Some [py_hash (np_str (argsort (X b)))]"
    by (simp_all add: evaluated_by_def MyProblem_evaluate_def Let_def)
  have eq: "is_equal a b = Inr (py_hash (np_str (argsort (X a))) = py_hash (np_str (argsort (X b))))"
    by (simp add: is_equal_def get_first_def ha hb)
  show ?thesis
  proof (intro conjI impI)
    show "is_equal a b = Inr (attrs a ''hash'' = attrs b ''hash'')"
      by (simp add: eq ha hb)
  next
    assume "argsort (X a) = argsort (X b)"
    then show "is_equal a b = Inr True" by (simp add: eq)
  qed
qed

theorem is_equal_compares_hash_witness:
  "evaluated_by (\<lambda>s. int (length s)) (map (\<lambda>i. char_of i)) (MyProblem_init [10, 30, 20 :: int])
     \<lparr>X = [1, 5, 3 :: int], attrs = [''F'' \<mapsto> [- 3], ''pheno'' \<mapsto> [0, 2, 1], ''hash'' \<mapsto> [3]]\<rparr>
   \<and> evaluated_by (\<lambda>s. int (length s)) (map (\<lambda>i. char_of i)) (MyProblem_init [10, 30, 20 :: int])
     \<lparr>X = [2, 9, 4 :: int], attrs = [''F'' \<mapsto> [- 3], ''pheno'' \<mapsto> [0, 2, 1], ''hash'' \<mapsto> [3]]\<rparr>
   \<and> [1, 5, 3 :: int] \<noteq> [2, 9, 4]
   \<and> argsort [1, 5, 3 :: int] = argsort [2, 9, 4 :: int]
   \<and> is_equal
        \<lparr>X = [1, 5, 3 :: int], attrs = [''F'' \<mapsto> [- 3], ''pheno'' \<mapsto> [0, 2, 1], ''hash'' \<mapsto> [3]]\<rparr>
        \<lparr>X = [2, 9, 4 :: int], attrs = [''F'' \<mapsto> [- 3], ''pheno'' \<mapsto> [0, 2, 1], ''hash'' \<mapsto> [3]]\<rparr>
      = Inr True"
  using is_equal_compares_hash [of "\<lambda>s. int (length s)" "map (\<lambda>i. char_of i)"
      "MyProblem_init [10, 30, 20 :: int]"
      "\<lparr>X = [1, 5, 3 :: int], attrs = [''F'' \<mapsto> [- 3], ''pheno'' \<mapsto> [0, 2, 1], ''hash'' \<mapsto> [3]]\<rparr>"
      "\<lparr>X = [2, 9, 4 :: int], attrs = [''F'' \<mapsto> [- 3], ''pheno'' \<mapsto> [0, 2, 1], ''hash'' \<mapsto> [3]]\<rparr>"]
  by (simp add: evaluated_by_def MyProblem_evaluate_def MyProblem_init_def argsort_def Let_def)

section \<open>Proofs for the per-generation report\<close>

subsection \<open>Survival keeps a feasible individual\<close>

lemma rank_key_le_feasible:
  "rank_key a \<le> rank_key b \<Longrightarrow> feasible b \<Longrightarrow> feasible a"
  by (auto simp: rank_key_def less_eq_prod_def split: if_splits)

lemma survival_keeps_feasible:
  assumes "0 < n" and "\<exists>ind \<in> set pop. feasible ind"
  shows "\<exists>ind \<in> set (survival n pop). feasible ind"
proof -
  let ?s = "sort_key rank_key pop"
  from assms(2) obtain b where b: "b \<in> set pop" "feasible b" by blast
  then have ne: "?s \<noteq> []" by (metis empty_iff list.set(1) set_sort)
  then obtain a rest where s: "?s = a # rest" by (cases ?s) auto
  have "sorted (map rank_key ?s)" by simp
  with s have "\<forall>x \<in> set ?s. rank_key a \<le> rank_key x" by auto
  moreover have "b \<in> set ?s" using b by simp
  ultimately have "rank_key a \<le> rank_key b" by blast
  with b have "feasible a" by (blast intro: rank_key_le_feasible)
  moreover have "a \<in> set (take n ?s)" using s assms(1) by (cases n) simp_all
  ultimately show ?thesis by (auto simp: survival_def)
qed

lemma survival_nonempty: "0 < n \<Longrightarrow> pop \<noteq> [] \<Longrightarrow> survival n pop \<noteq> []"
  by (cases n) (auto simp: survival_def dest: arg_cong [where f = length])

lemma length_driver [simp]: "length (driver n s offs) = Suc (length offs)"
  by (induction offs arbitrary: s) (auto split: prod.splits)

lemma driver_nonempty:
  "0 < n \<Longrightarrow> pop \<noteq> [] \<Longrightarrow> \<forall>s \<in> set (driver n (gen, evals, pop) offs). snd (snd s) \<noteq> []"
proof (induction offs arbitrary: gen evals pop)
  case Nil
  then show ?case by simp
next
  case (Cons off offs)
  have "survival n (pop @ off) \<noteq> []"
    using Cons.prems by (intro survival_nonempty) auto
  from Cons.IH [OF Cons.prems(1) this] Cons.prems(2) show ?case by simp
qed

lemma driver_keeps_feasible:
  "0 < n \<Longrightarrow> \<exists>ind \<in> set pop. feasible ind \<Longrightarrow>
     \<forall>s \<in> set (driver n (gen, evals, pop) offs). \<exists>ind \<in> set (snd (snd s)). feasible ind"
proof (induction offs arbitrary: gen evals pop)
  case Nil
  then show ?case by simp
next
  case (Cons off offs)
  have "\<exists>ind \<in> set (survival n (pop @ off)). feasible ind"
    using Cons.prems by (intro survival_keeps_feasible) auto
  from Cons.IH [OF Cons.prems(1) this] Cons.prems(2) show ?case by simp
qed

lemma driver_drop:
  "k \<le> length offs \<Longrightarrow> drop k (driver n s offs) = driver n (driver n s offs ! k) (drop k offs)"
proof (induction offs arbitrary: s k)
  case Nil
  then show ?case by simp
next
  case (Cons off offs)
  obtain gen evals pop where s: "s = (gen, evals, pop)" by (cases s)
  show ?case
  proof (cases k)
    case 0
    then show ?thesis by (simp add: s)
  next
    case (Suc j)
    with Cons.prems Cons.IH [of j] show ?thesis by (simp add: s)
  qed
qed

lemma driver_feasible_onward:
  assumes "0 < n" and "k \<le> g" and "g \<le> length offs"
    and "\<exists>ind \<in> set (snd (snd (driver n s offs ! k))). feasible ind"
  shows "\<exists>ind \<in> set (snd (snd (driver n s offs ! g))). feasible ind"
proof -
  let ?ss = "driver n s offs"
  obtain gen evals pop where sk: "?ss ! k = (gen, evals, pop)" by (cases "?ss ! k")
  have k: "k \<le> length offs" using assms by simp
  have "?ss ! g = drop k ?ss ! (g - k)" using assms by simp
  also have "\<dots> \<in> set (drop k ?ss)" using assms by (intro nth_mem) simp
  finally have "?ss ! g \<in> set (driver n (gen, evals, pop) (drop k offs))"
    using driver_drop [OF k, of n s] sk by simp
  moreover have "\<exists>ind \<in> set pop. feasible ind" using assms(4) sk by simp
  ultimately show ?thesis using driver_keeps_feasible [OF assms(1)] by blast
qed

subsection \<open>What a row records\<close>

lemma min_list_attained:
  fixes xs :: "rat list"
  assumes "xs \<noteq> []"
  shows "min_list xs \<in> set xs" and "\<forall>x \<in> set xs. min_list xs \<le> x"
  using assms by (simp_all add: min_list_Min)

lemma report_cv:
  assumes "pop \<noteq> []"
  shows "\<exists>ind \<in> set pop. cv_min (report gen evals pop) = CV (attrs ind)"
    and "\<forall>ind \<in> set pop. cv_min (report gen evals pop) \<le> CV (attrs ind)"
    and "cv_avg (report gen evals pop) * of_nat (length pop) = (\<Sum>ind\<leftarrow>pop. CV (attrs ind))"
proof -
  let ?cvs = "map (\<lambda>ind. CV (attrs ind)) pop"
  have ne: "?cvs \<noteq> []" using assms by simp
  have m: "cv_min (report gen evals pop) = min_list ?cvs"
    by (simp add: report_def Let_def)
  from min_list_attained(1) [OF ne] show "\<exists>ind \<in> set pop. cv_min (report gen evals pop) = CV (attrs ind)"
    unfolding m by auto
  from min_list_attained(2) [OF ne] show "\<forall>ind \<in> set pop. cv_min (report gen evals pop) \<le> CV (attrs ind)"
    unfolding m by auto
  show "cv_avg (report gen evals pop) * of_nat (length pop) = (\<Sum>ind\<leftarrow>pop. CV (attrs ind))"
    using assms by (simp add: report_def Let_def)
qed

lemma report_placeholder:
  "\<forall>ind \<in> set pop. \<not> feasible ind \<Longrightarrow>
     fopt (report gen evals pop) = None \<and> favg (report gen evals pop) = None"
  by (simp add: report_def Let_def filter_empty_conv)

lemma report_numeric:
  assumes "\<exists>ind \<in> set pop. feasible ind"
  shows "\<exists>ind \<in> set pop. feasible ind \<and> fopt (report gen evals pop) = Some (obj_F (attrs ind))
           \<and> (\<forall>ind' \<in> set pop. feasible ind' \<longrightarrow> obj_F (attrs ind) \<le> obj_F (attrs ind'))"
    and "\<exists>a. favg (report gen evals pop) = Some a
           \<and> a * of_nat (length (filter feasible pop)) = (\<Sum>ind\<leftarrow>filter feasible pop. obj_F (attrs ind))"
proof -
  let ?fs = "map (\<lambda>ind. obj_F (attrs ind)) (filter feasible pop)"
  have ne: "?fs \<noteq> []" using assms by (simp add: filter_empty_conv)
  have f: "fopt (report gen evals pop) = Some (min_list ?fs)"
    using ne by (simp add: report_def Let_def)
  from min_list_attained(1) [OF ne] obtain ind where
    ind: "ind \<in> set pop" "feasible ind" "min_list ?fs = obj_F (attrs ind)"
    by auto
  from min_list_attained(2) [OF ne] have
    "\<forall>ind' \<in> set pop. feasible ind' \<longrightarrow> min_list ?fs \<le> obj_F (attrs ind')"
    by auto
  with ind f show "\<exists>ind \<in> set pop. feasible ind \<and> fopt (report gen evals pop) = Some (obj_F (attrs ind))
           \<and> (\<forall>ind' \<in> set pop. feasible ind' \<longrightarrow> obj_F (attrs ind) \<le> obj_F (attrs ind'))"
    by auto
  have "favg (report gen evals pop) = Some (sum_list ?fs / of_nat (length ?fs))"
    using ne by (simp add: report_def Let_def)
  moreover have "sum_list ?fs / of_nat (length ?fs) * of_nat (length (filter feasible pop))
      = (\<Sum>ind\<leftarrow>filter feasible pop. obj_F (attrs ind))"
    using ne by simp
  ultimately show "\<exists>a. favg (report gen evals pop) = Some a
           \<and> a * of_nat (length (filter feasible pop)) = (\<Sum>ind\<leftarrow>filter feasible pop. obj_F (attrs ind))"
    by blast
qed

text \<open>The averages that a row records.\<close>

lemma report_averages:
  shows "cv_avg (report gen evals pop) = (\<Sum>ind\<leftarrow>pop. CV (attrs ind)) / of_nat (length pop)"
    and "\<exists>ind \<in> set pop. feasible ind \<Longrightarrow>
           filter feasible pop \<noteq> []
           \<and> favg (report gen evals pop)
               = Some ((\<Sum>ind\<leftarrow>filter feasible pop. obj_F (attrs ind))
                        / of_nat (length (filter feasible pop)))"
  by (simp_all add: report_def Let_def filter_empty_conv)

subsection \<open>Properties of the report\<close>

text \<open>
  C7 (what the reporter records). In a run with a target size \<open>n > 0\<close> from a non-empty
  initial population, for every generation \<open>g\<close>: the population is not empty, the
  recorded minimum constraint violation is the least one in the population and the
  recorded average is their sum divided by their number; the best and average feasible
  objective are the placeholder as long as no generation up to \<open>g\<close> has had a feasible
  individual, and from the first generation with a feasible individual onward they are
  numbers: the best is the least objective among the feasible individuals of the
  population, and the average is the sum of the objectives of the feasible individuals
  divided by their number.
\<close>

theorem reporter_records:
  assumes "0 < n" and "pop0 \<noteq> []" and "g \<le> length offs"
  shows "populations n pop0 offs ! g \<noteq> []
       \<and> (\<exists>ind \<in> set (populations n pop0 offs ! g).
            cv_min (history n pop0 offs ! g) = CV (attrs ind))
       \<and> (\<forall>ind \<in> set (populations n pop0 offs ! g).
            cv_min (history n pop0 offs ! g) \<le> CV (attrs ind))
       \<and> cv_avg (history n pop0 offs ! g)
            = (\<Sum>ind\<leftarrow>populations n pop0 offs ! g. CV (attrs ind))
                / of_nat (length (populations n pop0 offs ! g))
       \<and> ((\<forall>k \<le> g. \<forall>ind \<in> set (populations n pop0 offs ! k). \<not> feasible ind)
            \<longrightarrow> fopt (history n pop0 offs ! g) = None \<and> favg (history n pop0 offs ! g) = None)
       \<and> ((\<exists>k \<le> g. \<exists>ind \<in> set (populations n pop0 offs ! k). feasible ind)
            \<longrightarrow> (\<exists>ind \<in> set (populations n pop0 offs ! g). feasible ind
                    \<and> fopt (history n pop0 offs ! g) = Some (obj_F (attrs ind))
                    \<and> (\<forall>ind' \<in> set (populations n pop0 offs ! g).
                          feasible ind' \<longrightarrow> obj_F (attrs ind) \<le> obj_F (attrs ind')))
                \<and> filter feasible (populations n pop0 offs ! g) \<noteq> []
                \<and> favg (history n pop0 offs ! g)
                    = Some ((\<Sum>ind\<leftarrow>filter feasible (populations n pop0 offs ! g). obj_F (attrs ind))
                             / of_nat (length (filter feasible (populations n pop0 offs ! g)))))"
proof -
  let ?ss = "driver n (1, length pop0, pop0) offs"
  obtain gen evals pop where sg: "?ss ! g = (gen, evals, pop)" by (cases "?ss ! g")
  have g: "g < length ?ss" using assms by simp
  have pops: "populations n pop0 offs ! k = snd (snd (?ss ! k))" if "k \<le> g" for k
    using that g by (simp add: populations_def split: prod.splits)
  have popg: "populations n pop0 offs ! g = pop"
    using pops [of g] sg by simp
  have row: "history n pop0 offs ! g = report gen evals pop"
    using g sg by (simp add: history_def)
  have "?ss ! g \<in> set ?ss" using g by (rule nth_mem)
  with driver_nonempty [OF assms(1,2), of 1 "length pop0" offs] sg
  have ne: "pop \<noteq> []" by fastforce
  have onward: "\<exists>ind \<in> set pop. feasible ind"
    if "\<exists>k \<le> g. \<exists>ind \<in> set (populations n pop0 offs ! k). feasible ind"
  proof -
    from that obtain k where k: "k \<le> g" "\<exists>ind \<in> set (populations n pop0 offs ! k). feasible ind"
      by blast
    then have "\<exists>ind \<in> set (snd (snd (?ss ! k))). feasible ind" by (simp add: pops)
    from driver_feasible_onward [OF assms(1) k(1) assms(3) this] sg
    show ?thesis by simp
  qed
  have before: "\<forall>ind \<in> set pop. \<not> feasible ind"
    if "\<forall>k \<le> g. \<forall>ind \<in> set (populations n pop0 offs ! k). \<not> feasible ind"
    using that popg by (metis order_refl)
  show ?thesis
    unfolding popg row
    using ne report_cv(1,2) [OF ne, of gen evals] report_averages [where gen = gen and evals = evals and pop = pop]
      report_placeholder [of pop gen evals] report_numeric(1) [of pop gen evals] onward before
    by (intro conjI impI) blast+
qed

theorem reporter_records_witness:
  "(0::nat) < 2
   \<and> [\<lparr>X = (), attrs = \<lparr>obj_F = - 5, CV = 3\<rparr>\<rparr>, \<lparr>X = (), attrs = \<lparr>obj_F = - 7, CV = 1\<rparr>\<rparr>] \<noteq> []
   \<and> (2::nat) \<le> length
        [[\<lparr>X = (), attrs = \<lparr>obj_F = - 2, CV = 0\<rparr>\<rparr>, \<lparr>X = (), attrs = \<lparr>obj_F = - 9, CV = 4\<rparr>\<rparr>],
         [\<lparr>X = (), attrs = \<lparr>obj_F = - 3, CV = 0\<rparr>\<rparr>, \<lparr>X = (), attrs = \<lparr>obj_F = - 9, CV = 4\<rparr>\<rparr>]]
   \<and> history 2
        [\<lparr>X = (), attrs = \<lparr>obj_F = - 5, CV = 3\<rparr>\<rparr>, \<lparr>X = (), attrs = \<lparr>obj_F = - 7, CV = 1\<rparr>\<rparr>]
        [[\<lparr>X = (), attrs = \<lparr>obj_F = - 2, CV = 0\<rparr>\<rparr>, \<lparr>X = (), attrs = \<lparr>obj_F = - 9, CV = 4\<rparr>\<rparr>],
         [\<lparr>X = (), attrs = \<lparr>obj_F = - 3, CV = 0\<rparr>\<rparr>, \<lparr>X = (), attrs = \<lparr>obj_F = - 9, CV = 4\<rparr>\<rparr>]]
     = [\<lparr>n_gen = 1, n_eval = 2, cv_min = 1, cv_avg = 2, fopt = None, favg = None\<rparr>,
        \<lparr>n_gen = 2, n_eval = 4, cv_min = 0, cv_avg = 2, fopt = Some (- 2), favg = Some (- 2)\<rparr>,
        \<lparr>n_gen = 3, n_eval = 6, cv_min = 0, cv_avg = 0, fopt = Some (- 3), favg = Some (- (5 / 2))\<rparr>]"
  using reporter_records [of 2
      "[\<lparr>X = (), attrs = \<lparr>obj_F = - 5, CV = 3\<rparr>\<rparr>, \<lparr>X = (), attrs = \<lparr>obj_F = - 7, CV = 1\<rparr>\<rparr>]"
      2
      "[[\<lparr>X = (), attrs = \<lparr>obj_F = - 2, CV = 0\<rparr>\<rparr>, \<lparr>X = (), attrs = \<lparr>obj_F = - 9, CV = 4\<rparr>\<rparr>],
        [\<lparr>X = (), attrs = \<lparr>obj_F = - 3, CV = 0\<rparr>\<rparr>, \<lparr>X = (), attrs = \<lparr>obj_F = - 9, CV = 4\<rparr>\<rparr>]]"]
  by (simp add: history_def report_def survival_def rank_key_def feasible_def)

end
